theory Spec2Isabelle
  imports Main
begin

section \<open>Classical simulation of Shor's algorithm (simulShore.py)\<close>

text \<open>
  Python integers are unbounded, so every integer of the program is an \<open>int\<close>. Python's
  \<open>%\<close> and \<open>//\<close> are floor remainder and floor division, which is what \<open>mod\<close> and
  \<open>div\<close> are on \<open>int\<close>, except that Python raises where the divisor is zero.
  An exception is a value of \<open>error\<close> on the left of a sum.
\<close>

datatype error =
  ZeroDivisionError | ValueError | OverflowError | RecursionError | UnboundLocalError

subsection \<open>Order finder\<close>

text \<open>
  The loop \<open>for r in range(1, max_order + 1)\<close> of \<open>find_order\<close>, entered at loop index
  \<open>r\<close> with the running value \<open>result\<close>. The body multiplies first and compares after.
\<close>

function find_order_loop :: "int \<Rightarrow> int \<Rightarrow> int \<Rightarrow> int \<Rightarrow> int \<Rightarrow> error + int option" where
  "find_order_loop a n max_order r result =
     (if max_order < r then Inr None
      else if n = 0 then Inl ZeroDivisionError
      else let result' = (result * a) mod n
           in if result' = 1 then Inr (Some r)
              else find_order_loop a n max_order (r + 1) result')"
  by pat_completeness auto
termination
  by (relation "measure (\<lambda>(a, n, max_order, r, result). nat (max_order + 1 - r))") auto

declare find_order_loop.simps [simp del]

text \<open>\<open>max_order\<close> is optional in the source: \<open>None\<close> stands for the default \<open>n\<close>.\<close>

definition find_order :: "int \<Rightarrow> int \<Rightarrow> int option \<Rightarrow> error + int option" where
  "find_order a n max_order =
     (let max_order = (case max_order of None \<Rightarrow> n | Some m \<Rightarrow> m)
      in find_order_loop a n max_order 1 1)"

text \<open>
  The number of times the body of that loop is entered, by the same recursion: the
  iteration that returns or raises counts as one.
\<close>

function find_order_iterations :: "int \<Rightarrow> int \<Rightarrow> int \<Rightarrow> int \<Rightarrow> int \<Rightarrow> nat" where
  "find_order_iterations a n max_order r result =
     (if max_order < r then 0
      else if n = 0 then 1
      else let result' = (result * a) mod n
           in if result' = 1 then 1
              else 1 + find_order_iterations a n max_order (r + 1) result')"
  by pat_completeness auto
termination
  by (relation "measure (\<lambda>(a, n, max_order, r, result). nat (max_order + 1 - r))") auto

declare find_order_iterations.simps [simp del]

subsection \<open>The interpreter: floating point, integer texts and randomness\<close>

text \<open>
  What the program takes from the interpreter is a parameter of the model.
  \<open>log2_int n\<close> is \<open>int(math.log2(n))\<close> for \<open>n > 0\<close>, and \<open>root_round n k\<close> is
  \<open>round(n ** (1 / k))\<close> for \<open>n > 0\<close> and \<open>k \<ge> 2\<close>, which raises OverflowError when
  \<open>n\<close> is too large for a float and is otherwise the rounding of a positive float, a
  natural number. \<open>int_max_str_digits\<close> is \<open>sys.get_int_max_str_digits()\<close>: \<open>0\<close> for
  no limit, otherwise at least 640, and 4300 unless it was set.
\<close>

record py_env =
  log2_int :: "int \<Rightarrow> int"
  root_round :: "int \<Rightarrow> int \<Rightarrow> error + nat"
  int_max_str_digits :: nat

text \<open>
  Formatting an integer in an f-string raises ValueError when the limit is set and the
  integer has more decimal digits than the limit; texts of at most 640 characters are
  never checked.
\<close>

definition str_fits :: "nat \<Rightarrow> int \<Rightarrow> bool" where
  "str_fits limit x = (limit = 0 \<or> \<bar>x\<bar> < 10 ^ max limit 640)"

text \<open>
  A printed line is its format text with the interpolated integers beside it. The marks
  the source prints outside ASCII are written \<open>[ok]\<close>, \<open>[x]\<close>, \<open>x\<close>, \<open>=\<close> and \<open>+-\<close>;
  a text that ends in a newline is followed by an empty line, which is what it prints.
  \<open>print_lines\<close> prints line after line and stops at the first line with an integer
  that cannot be formatted; \<open>say\<close> is \<open>if verbose: print(...)\<close> on the output
  printed so far, and gives the output and the exception, if one was raised.
\<close>

type_synonym line = "string \<times> int list"

fun print_lines :: "py_env \<Rightarrow> line list \<Rightarrow> line list \<Rightarrow> line list \<times> error option" where
  "print_lines env out [] = (out, None)"
| "print_lines env out (l # ls) =
     (if list_all (str_fits (int_max_str_digits env)) (snd l)
      then print_lines env (out @ [l]) ls
      else (out, Some ValueError))"

definition say :: "py_env \<Rightarrow> bool \<Rightarrow> line list \<Rightarrow> line list \<Rightarrow> line list \<times> error option" where
  "say env verbose out ls = (if verbose then print_lines env out ls else (out, None))"

text \<open>
  \<open>random.randint(lo, hi)\<close> raises ValueError on an empty range and otherwise returns
  some integer of \<open>[lo, hi]\<close>: the generator is a sequence \<open>rng\<close> of integers read at
  position \<open>pos\<close>, folded into the range.
\<close>

definition randint :: "(nat \<Rightarrow> int) \<Rightarrow> nat \<Rightarrow> int \<Rightarrow> int \<Rightarrow> error + int" where
  "randint rng pos lo hi =
     (if hi < lo then Inl ValueError else Inr (lo + rng pos mod (hi - lo + 1)))"

subsection \<open>Factor engine\<close>

text \<open>
  A \<open>for\<close> loop of \<open>shors_algorithm\<close> ends either by a \<open>return\<close> in its body or by
  running out, which leaves the local variable \<open>a\<close> as the last iteration bound it
  (\<open>None\<close>: not bound).
\<close>

datatype 'r loop_exit = Return 'r | Fallthrough "int option"

text \<open>
  One run of the body of \<open>shors_algorithm\<close> ends with a returned value or an exception
  (\<open>Done\<close>) or at one of its three statements \<open>return shors_algorithm(n, verbose=False)\<close>
  (\<open>Retry\<close>). The body is written in the order of the source, one definition for each
  of its parts, the later part first.
\<close>

datatype attempt = Done "error + (int \<times> int) option" | Retry

text \<open>Steps 6 to 10 of the source, from the base \<open>a\<close> and its order \<open>r\<close>.\<close>

definition factor_extraction ::
  "py_env \<Rightarrow> int \<Rightarrow> int \<Rightarrow> int \<Rightarrow> bool \<Rightarrow> line list \<Rightarrow> line list \<times> attempt" where
  "factor_extraction env a r n verbose out =
     (if r mod 2 = 1
      then (case say env verbose out
                   [(''[x] Order {} is odd, trying another a...'', [r]), ('''', [])] of
              (out, Some e) \<Rightarrow> (out, Done (Inl e))
            | (out, None) \<Rightarrow> (out, Retry))
      else
      case say env verbose out
             [(''[ok] Order is even: r = {}'', [r]), ('''', []),
              (''Step 5: Compute a^(r/2) mod n'', [])] of
        (out, Some e) \<Rightarrow> (out, Done (Inl e))
      | (out, None) \<Rightarrow>
      (let x = a ^ nat (r div 2) mod n in
       case say env verbose out
              [(''  {}^({}//2) = {} (mod {})'', [a, r, x, n]), ('''', []),
               (''Step 6: Check if x = +-1 (mod n)'', [])] of
         (out, Some e) \<Rightarrow> (out, Done (Inl e))
       | (out, None) \<Rightarrow>
       (if x = n - 1
        then (case say env verbose out
                     [(''[x] {} = -1 (mod {}), trying another a...'', [x, n]), ('''', [])] of
                (out, Some e) \<Rightarrow> (out, Done (Inl e))
              | (out, None) \<Rightarrow> (out, Retry))
        else
        case say env verbose out
               [(''[ok] {} is not +-1 mod {}'', [x, n]), ('''', []),
                (''Step 7: Find factors using gcd'', [])] of
          (out, Some e) \<Rightarrow> (out, Done (Inl e))
        | (out, None) \<Rightarrow>
        (let factor1 = gcd (x - 1) n;
             factor2 = gcd (x + 1) n
         in
         case say env verbose out
                [(''  gcd({} - 1, {}) = {}'', [x, n, factor1]),
                 (''  gcd({} + 1, {}) = {}'', [x, n, factor2]), ('''', [])] of
           (out, Some e) \<Rightarrow> (out, Done (Inl e))
         | (out, None) \<Rightarrow>
         (if 1 < factor1 \<and> factor1 < n
          then (case say env verbose out
                       [(replicate 70 CHR ''='', []),
                        (''[ok] Successfully factored {}:'', [n]),
                        (''  {} = {} x {}'', [n, factor1, n div factor1]),
                        (''  Verification: {} x {} = {}'',
                           [factor1, n div factor1, factor1 * (n div factor1)]),
                        (replicate 70 CHR ''='', [])] of
                  (out, Some e) \<Rightarrow> (out, Done (Inl e))
                | (out, None) \<Rightarrow> (out, Done (Inr (Some (factor1, n div factor1)))))
          else
          if 1 < factor2 \<and> factor2 < n
          then (case say env verbose out
                       [(replicate 70 CHR ''='', []),
                        (''[ok] Successfully factored {}:'', [n]),
                        (''  {} = {} x {}'', [n, factor2, n div factor2]),
                        (''  Verification: {} x {} = {}'',
                           [factor2, n div factor2, factor2 * (n div factor2)]),
                        (replicate 70 CHR ''='', [])] of
                  (out, Some e) \<Rightarrow> (out, Done (Inl e))
                | (out, None) \<Rightarrow> (out, Done (Inr (Some (factor2, n div factor2)))))
          else
          (case say env verbose out
                  [(''[x] Could not find nontrivial factors, trying another a...'', []),
                   ('''', [])] of
             (out, Some e) \<Rightarrow> (out, Done (Inl e))
           | (out, None) \<Rightarrow> (out, Retry)))))))"

text \<open>Step 5 of the source: the order of the base \<open>a\<close> the sampling loop left.\<close>

definition order_stage ::
  "py_env \<Rightarrow> int \<Rightarrow> int \<Rightarrow> bool \<Rightarrow> line list \<Rightarrow> line list \<times> attempt" where
  "order_stage env a n verbose out =
     (case say env verbose out
             [(''[x] Could not find factor via gcd'', []), ('''', []),
              (''Step 3: Find the period r (order of a modulo n)'', [])] of
        (out, Some e) \<Rightarrow> (out, Done (Inl e))
      | (out, None) \<Rightarrow>
      (case find_order a n None of
         Inl e \<Rightarrow> (out, Done (Inl e))
       | Inr None \<Rightarrow>
           (case say env verbose out [(''[x] Could not find order'', [])] of
              (out, Some e) \<Rightarrow> (out, Done (Inl e))
            | (out, None) \<Rightarrow> (out, Done (Inr None)))
       | Inr (Some r) \<Rightarrow>
           (case say env verbose out
                   [(''[ok] Found order: {}^{} = 1 (mod {})'', [a, r, n]), ('''', []),
                    (''Step 4: Use the period to find factors'', []),
                    (''  a = {}, r = {}'', [a, r])] of
              (out, Some e) \<Rightarrow> (out, Done (Inl e))
            | (out, None) \<Rightarrow> factor_extraction env a r n verbose out)))"

definition max_attempts :: nat where
  "max_attempts = 10"

text \<open>
  The loop of steps 3 and 4 of the source, over the values of \<open>range(max_attempts)\<close>.
  The state is the output printed so far and the position of the generator.
\<close>

fun sampling_loop ::
  "py_env \<Rightarrow> (nat \<Rightarrow> int) \<Rightarrow> int \<Rightarrow> bool \<Rightarrow> nat list \<Rightarrow> int option \<Rightarrow> line list \<Rightarrow> nat
     \<Rightarrow> line list \<times> nat \<times> (error + (int \<times> int) loop_exit)" where
  "sampling_loop env rng n verbose [] a out pos = (out, pos, Inr (Fallthrough a))"
| "sampling_loop env rng n verbose (attempt # rest) a out pos =
     (case randint rng pos 2 (n - 1) of
        Inl e \<Rightarrow> (out, pos, Inl e)
      | Inr a' \<Rightarrow>
          (let g = gcd a' n in
           case say env verbose out
                  [(''  Attempt {}: a = {}, gcd({}, {}) = {}'',
                      [int attempt + 1, a', a', n, g])] of
             (out, Some e) \<Rightarrow> (out, pos + 1, Inl e)
           | (out, None) \<Rightarrow>
               if g \<noteq> 1
               then (case say env verbose out
                            [(''[ok] Found factor: {}'', [g]),
                             (''  {} = {} x {}'', [n, g, n div g])] of
                       (out, Some e) \<Rightarrow> (out, pos + 1, Inl e)
                     | (out, None) \<Rightarrow> (out, pos + 1, Inr (Return (g, n div g))))
               else sampling_loop env rng n verbose rest (Some a') out (pos + 1)))"

text \<open>Steps 3 and 4 of the source, and what follows them.\<close>

definition sampling_stage ::
  "py_env \<Rightarrow> (nat \<Rightarrow> int) \<Rightarrow> int \<Rightarrow> bool \<Rightarrow> int option \<Rightarrow> line list \<Rightarrow> nat
     \<Rightarrow> line list \<times> nat \<times> attempt" where
  "sampling_stage env rng n verbose a out pos =
     (case say env verbose out
             [(''[x] Not a perfect power'', []), ('''', []),
              (''Step 2: Find a random number a where gcd(a, n) = 1'', [])] of
        (out, Some e) \<Rightarrow> (out, pos, Done (Inl e))
      | (out, None) \<Rightarrow>
      (case sampling_loop env rng n verbose [0..<max_attempts] a out pos of
         (out, pos, Inl e) \<Rightarrow> (out, pos, Done (Inl e))
       | (out, pos, Inr (Return (g, q))) \<Rightarrow> (out, pos, Done (Inr (Some (g, q))))
       | (out, pos, Inr (Fallthrough None)) \<Rightarrow> (out, pos, Done (Inl UnboundLocalError))
       | (out, pos, Inr (Fallthrough (Some a))) \<Rightarrow>
           (case order_stage env a n verbose out of
              (out, res) \<Rightarrow> (out, pos, res))))"

text \<open>
  The loop of step 2 of the source, over the values \<open>ks\<close> of
  \<open>range(2, int(math.log2(n)) + 1)\<close>; it leaves the loop with the base and the exponent
  for which the source prints and returns.
\<close>

fun perfect_power_loop ::
  "py_env \<Rightarrow> int \<Rightarrow> int list \<Rightarrow> int option \<Rightarrow> error + (int \<times> int) loop_exit" where
  "perfect_power_loop env n [] a = Inr (Fallthrough a)"
| "perfect_power_loop env n (k # ks) a =
     (case root_round env n k of
        Inl e \<Rightarrow> Inl e
      | Inr a' \<Rightarrow>
          if int a' ^ nat k = n then Inr (Return (int a', k))
          else perfect_power_loop env n ks (Some (int a')))"

text \<open>Step 2 of the source, and what follows it. \<open>math.log2\<close> raises ValueError for \<open>n \<le> 0\<close>.\<close>

definition perfect_power_stage ::
  "py_env \<Rightarrow> (nat \<Rightarrow> int) \<Rightarrow> int \<Rightarrow> bool \<Rightarrow> line list \<Rightarrow> nat
     \<Rightarrow> line list \<times> nat \<times> attempt" where
  "perfect_power_stage env rng n verbose out pos =
     (case say env verbose out [(''Step 1: Check if n is a perfect power'', [])] of
        (out, Some e) \<Rightarrow> (out, pos, Done (Inl e))
      | (out, None) \<Rightarrow>
      (if n \<le> 0 then (out, pos, Done (Inl ValueError))
       else
       case perfect_power_loop env n [2..log2_int env n] None of
         Inl e \<Rightarrow> (out, pos, Done (Inl e))
       | Inr (Return (a, k)) \<Rightarrow>
           (case say env verbose out
                   [(''[ok] {} = {}^{}'', [n, a, k]),
                    (''  Factors: {} x {}'', [a, a ^ nat (k - 1)])] of
              (out, Some e) \<Rightarrow> (out, pos, Done (Inl e))
            | (out, None) \<Rightarrow> (out, pos, Done (Inr (Some (a, a ^ nat (k - 1))))))
       | Inr (Fallthrough a) \<Rightarrow> sampling_stage env rng n verbose a out pos))"

text \<open>The body of \<open>shors_algorithm\<close> from its first line: the heading and step 1.\<close>

definition shors_attempt ::
  "py_env \<Rightarrow> (nat \<Rightarrow> int) \<Rightarrow> int \<Rightarrow> bool \<Rightarrow> line list \<Rightarrow> nat
     \<Rightarrow> line list \<times> nat \<times> attempt" where
  "shors_attempt env rng n verbose out pos =
     (case say env verbose out
             [(replicate 70 CHR ''='', []),
              (''Shor's Algorithm - Classical Simulation'', []),
              (replicate 70 CHR ''='', []),
              (''Factoring: {}'', [n]), ('''', [])] of
        (out, Some e) \<Rightarrow> (out, pos, Done (Inl e))
      | (out, None) \<Rightarrow>
      (if n mod 2 = 0
       then (case say env verbose out
                    [(''[ok] Number is even'', []),
                     (''  Factors: 2 x {}'', [n div 2])] of
               (out, Some e) \<Rightarrow> (out, pos, Done (Inl e))
             | (out, None) \<Rightarrow> (out, pos, Done (Inr (Some (2, n div 2)))))
       else perfect_power_stage env rng n verbose out pos))"

text \<open>
  \<open>shors_algorithm\<close>: a run of the body, and at \<open>Retry\<close> the recursive call on the same
  \<open>n\<close> with \<open>verbose=False\<close>. \<open>stack\<close> is the number of nested calls the interpreter
  still allows; the call that exceeds it raises RecursionError.
\<close>

fun shors_algorithm ::
  "py_env \<Rightarrow> (nat \<Rightarrow> int) \<Rightarrow> nat \<Rightarrow> int \<Rightarrow> bool \<Rightarrow> line list \<Rightarrow> nat
     \<Rightarrow> line list \<times> nat \<times> (error + (int \<times> int) option)" where
  "shors_algorithm env rng 0 n verbose out pos =
     (case shors_attempt env rng n verbose out pos of
        (out, pos, Done res) \<Rightarrow> (out, pos, res)
      | (out, pos, Retry) \<Rightarrow> (out, pos, Inl RecursionError))"
| "shors_algorithm env rng (Suc stack) n verbose out pos =
     (case shors_attempt env rng n verbose out pos of
        (out, pos, Done res) \<Rightarrow> (out, pos, res)
      | (out, pos, Retry) \<Rightarrow> shors_algorithm env rng stack n False out pos)"

section \<open>The order finder\<close>

lemma power_step_mod:
  assumes "1 \<le> r" "result mod n = a ^ nat (r - 1) mod n"
  shows "(result * a) mod n = a ^ nat r mod (n::int)"
proof -
  have "nat r = Suc (nat (r - 1))" using assms(1) by simp
  then have "a ^ nat r = a ^ nat (r - 1) * a" by simp
  then show ?thesis using assms(2) by (metis mod_mult_left_eq)
qed

lemma find_order_loop_Some_iff:
  assumes "n \<noteq> 0" "1 \<le> r" "result mod n = a ^ nat (r - 1) mod n"
  shows "find_order_loop a n m r result = Inr (Some s) \<longleftrightarrow>
           r \<le> s \<and> s \<le> m \<and> a ^ nat s mod n = 1 \<and>
           (\<forall>k. r \<le> k \<and> k < s \<longrightarrow> a ^ nat k mod n \<noteq> 1)"
  using assms
proof (induction a n m r result rule: find_order_loop.induct)
  case (1 a n m r result)
  have step: "(result * a) mod n = a ^ nat r mod n"
    using "1.prems" by (intro power_step_mod) auto
  show ?case
  proof (cases "m < r")
    case True
    then show ?thesis by (subst find_order_loop.simps) auto
  next
    case False
    show ?thesis
    proof (cases "(result * a) mod n = 1")
      case True
      with False "1.prems" step show ?thesis
        by (subst find_order_loop.simps) (auto simp: Let_def)
    next
      case nf: False
      have inv: "((result * a) mod n) mod n = a ^ nat (r + 1 - 1) mod n"
        using step by simp
      have IH: "find_order_loop a n m (r + 1) ((result * a) mod n) = Inr (Some s) \<longleftrightarrow>
           r + 1 \<le> s \<and> s \<le> m \<and> a ^ nat s mod n = 1 \<and>
           (\<forall>k. r + 1 \<le> k \<and> k < s \<longrightarrow> a ^ nat k mod n \<noteq> 1)"
        using "1.IH"[OF False _ refl nf] "1.prems" inv by simp
      have r1: "a ^ nat r mod n \<noteq> 1" using nf step by simp
      have "(r \<le> s \<and> s \<le> m \<and> a ^ nat s mod n = 1 \<and>
             (\<forall>k. r \<le> k \<and> k < s \<longrightarrow> a ^ nat k mod n \<noteq> 1))
          \<longleftrightarrow> (r + 1 \<le> s \<and> s \<le> m \<and> a ^ nat s mod n = 1 \<and>
             (\<forall>k. r + 1 \<le> k \<and> k < s \<longrightarrow> a ^ nat k mod n \<noteq> 1))"
        using r1 by (smt (verit, best))
      then show ?thesis using False nf "1.prems"(1) IH
        by (subst find_order_loop.simps) (simp add: Let_def)
    qed
  qed
qed

lemma find_order_loop_None_iff:
  assumes "n \<noteq> 0" "1 \<le> r" "result mod n = a ^ nat (r - 1) mod n"
  shows "find_order_loop a n m r result = Inr None \<longleftrightarrow>
           (\<forall>k. r \<le> k \<and> k \<le> m \<longrightarrow> a ^ nat k mod n \<noteq> 1)"
  using assms
proof (induction a n m r result rule: find_order_loop.induct)
  case (1 a n m r result)
  have step: "(result * a) mod n = a ^ nat r mod n"
    using "1.prems" by (intro power_step_mod) auto
  show ?case
  proof (cases "m < r")
    case True
    then show ?thesis by (subst find_order_loop.simps) auto
  next
    case False
    show ?thesis
    proof (cases "(result * a) mod n = 1")
      case True
      with False "1.prems" step show ?thesis
        by (subst find_order_loop.simps) (auto simp: Let_def)
    next
      case nf: False
      have inv: "((result * a) mod n) mod n = a ^ nat (r + 1 - 1) mod n"
        using step by simp
      have IH: "find_order_loop a n m (r + 1) ((result * a) mod n) = Inr None \<longleftrightarrow>
           (\<forall>k. r + 1 \<le> k \<and> k \<le> m \<longrightarrow> a ^ nat k mod n \<noteq> 1)"
        using "1.IH"[OF False _ refl nf] "1.prems" inv by simp
      have r1: "a ^ nat r mod n \<noteq> 1" using nf step by simp
      have "(\<forall>k. r \<le> k \<and> k \<le> m \<longrightarrow> a ^ nat k mod n \<noteq> 1)
          \<longleftrightarrow> (\<forall>k. r + 1 \<le> k \<and> k \<le> m \<longrightarrow> a ^ nat k mod n \<noteq> 1)"
        using r1 by (smt (verit, best))
      then show ?thesis using False nf "1.prems"(1) IH
        by (subst find_order_loop.simps) (simp add: Let_def)
    qed
  qed
qed

lemma find_order_loop_no_error:
  "n \<noteq> 0 \<Longrightarrow> \<exists>res. find_order_loop a n m r result = Inr res"
proof (induction a n m r result rule: find_order_loop.induct)
  case (1 a n m r result)
  then show ?case
    by (subst find_order_loop.simps) (auto simp: Let_def)
qed

lemma find_order_loop_mono:
  "find_order_loop a n b1 r result = Inr (Some s) \<Longrightarrow> b1 \<le> b2 \<Longrightarrow>
   find_order_loop a n b2 r result = Inr (Some s)"
proof (induction a n b1 r result rule: find_order_loop.induct)
  case (1 a n b1 r result)
  from "1.prems"(1) have le: "\<not> b1 < r" and n0: "n \<noteq> 0"
    by (subst (asm) find_order_loop.simps, auto split: if_splits)+
  show ?case
  proof (cases "(result * a) mod n = 1")
    case True
    with "1.prems" le n0 show ?thesis
      by (subst find_order_loop.simps, subst (asm) find_order_loop.simps) (auto simp: Let_def)
  next
    case False
    with "1.prems" le n0 have "find_order_loop a n b1 (r + 1) ((result * a) mod n) = Inr (Some s)"
      by (subst (asm) find_order_loop.simps) (auto simp: Let_def)
    then have "find_order_loop a n b2 (r + 1) ((result * a) mod n) = Inr (Some s)"
      using "1.IH"[OF le n0 refl False] "1.prems"(2) by simp
    with False le n0 "1.prems"(2) show ?thesis
      by (subst find_order_loop.simps) (auto simp: Let_def)
  qed
qed

lemma find_order_iterations_le:
  "find_order_iterations a n m r result \<le> nat (m + 1 - r)"
proof (induction a n m r result rule: find_order_iterations.induct)
  case (1 a n m r result)
  show ?case
  proof (cases "m < r \<or> n = 0 \<or> (result * a) mod n = 1")
    case True
    then show ?thesis by (subst find_order_iterations.simps) (auto simp: Let_def)
  next
    case False
    then have "find_order_iterations a n m (r + 1) ((result * a) mod n) \<le> nat (m + 1 - (r + 1))"
      using "1.IH"[OF _ _ refl] by simp
    with False show ?thesis
      by (subst find_order_iterations.simps) (auto simp: Let_def)
  qed
qed

lemma find_order_iterations_Some:
  "find_order_loop a n m r result = Inr (Some s) \<Longrightarrow>
   find_order_iterations a n m r result = nat (s + 1 - r) \<and> r \<le> s"
proof (induction a n m r result rule: find_order_loop.induct)
  case (1 a n m r result)
  from "1.prems"(1) have le: "\<not> m < r" and n0: "n \<noteq> 0"
    by (subst (asm) find_order_loop.simps, auto split: if_splits)+
  show ?case
  proof (cases "(result * a) mod n = 1")
    case True
    with "1.prems" le n0 show ?thesis
      by (subst find_order_iterations.simps, subst (asm) find_order_loop.simps) (auto simp: Let_def)
  next
    case False
    with "1.prems" le n0 have "find_order_loop a n m (r + 1) ((result * a) mod n) = Inr (Some s)"
      by (subst (asm) find_order_loop.simps) (auto simp: Let_def)
    then have "find_order_iterations a n m (r + 1) ((result * a) mod n) = nat (s + 1 - (r + 1)) \<and> r + 1 \<le> s"
      using "1.IH"[OF le n0 refl False] by simp
    with False le n0 show ?thesis
      by (subst find_order_iterations.simps) (auto simp: Let_def)
  qed
qed

lemma find_order_iterations_None:
  "find_order_loop a n m r result = Inr None \<Longrightarrow>
   find_order_iterations a n m r result = nat (m + 1 - r)"
proof (induction a n m r result rule: find_order_loop.induct)
  case (1 a n m r result)
  show ?case
  proof (cases "m < r")
    case True
    then show ?thesis by (subst find_order_iterations.simps) auto
  next
    case le: False
    from "1.prems" le have n0: "n \<noteq> 0" and nf: "(result * a) mod n \<noteq> 1"
      by (subst (asm) find_order_loop.simps, auto simp: Let_def split: if_splits)+
    from "1.prems" le n0 nf
    have "find_order_loop a n m (r + 1) ((result * a) mod n) = Inr None"
      by (subst (asm) find_order_loop.simps) (auto simp: Let_def)
    then have "find_order_iterations a n m (r + 1) ((result * a) mod n) = nat (m + 1 - (r + 1))"
      using "1.IH"[OF le n0 refl nf] by simp
    with le n0 nf show ?thesis
      by (subst find_order_iterations.simps) (auto simp: Let_def)
  qed
qed

lemma shared_factor_no_order:
  assumes "1 \<le> n" "gcd a n \<noteq> 1" "1 \<le> k"
  shows "a ^ nat k mod n \<noteq> (1::int)"
proof
  assume one: "a ^ nat k mod n = 1"
  have "nat k = Suc (nat (k - 1))" using assms(3) by simp
  then have "a ^ nat k = a * a ^ nat (k - 1)" by simp
  then have "gcd a n dvd a ^ nat k" by simp
  moreover have "gcd a n dvd n" by simp
  ultimately have "gcd a n dvd a ^ nat k mod n" by (simp add: dvd_mod_iff)
  with one have "gcd a n dvd 1" by simp
  then have "gcd a n = 1" by simp
  with assms(2) show False by contradiction
qed

text \<open>
  C6. The order finder is monotonic in its bound: a result found with the bound \<open>b1\<close> is
  the result with any larger bound \<open>b2\<close>.
\<close>

theorem find_order_monotonic_in_bound:
  "find_order a n (Some b1) = Inr (Some r) \<Longrightarrow> b1 \<le> b2 \<Longrightarrow>
   find_order a n (Some b2) = Inr (Some r)"
  unfolding find_order_def Let_def option.case by (rule find_order_loop_mono)

theorem find_order_monotonic_in_bound_witness:
  "find_order 2 15 (Some 4) = Inr (Some 4) \<and> (4::int) \<le> 9 \<and>
   find_order 2 15 (Some 9) = Inr (Some 4)"
proof -
  have found: "find_order 2 15 (Some 4) = Inr (Some 4)"
    by (simp add: find_order_def find_order_loop.simps)
  have le: "(4::int) \<le> 9" by simp
  from find_order_monotonic_in_bound [OF found le] found le show ?thesis by simp
qed

text \<open>
  C2. For \<open>n \<ge> 2\<close>, a base \<open>a\<close> of \<open>[1, n - 1]\<close> coprime to \<open>n\<close> and a positive bound,
  the order finder returns \<open>r\<close> exactly when \<open>r\<close> is the smallest positive exponent with
  \<open>a ^ r mod n = 1\<close> and \<open>r\<close> is within the bound, and returns \<open>None\<close> exactly when no
  exponent within the bound has that property.
\<close>

theorem find_order_smallest_order:
  assumes "2 \<le> n" "1 \<le> a" "a \<le> n - 1" "gcd a n = 1" "0 < max_order"
  shows "(find_order a n (Some max_order) = Inr (Some r) \<longleftrightarrow>
            1 \<le> r \<and> r \<le> max_order \<and> a ^ nat r mod n = 1 \<and>
            (\<forall>k. 1 \<le> k \<and> k < r \<longrightarrow> a ^ nat k mod n \<noteq> 1)) \<and>
         (find_order a n (Some max_order) = Inr None \<longleftrightarrow>
            (\<forall>k. 1 \<le> k \<and> k \<le> max_order \<longrightarrow> a ^ nat k mod n \<noteq> 1))"
proof -
  have n0: "n \<noteq> 0" using assms(1) by simp
  have inv: "1 mod n = a ^ nat (1 - 1) mod n" by simp
  show ?thesis
    unfolding find_order_def
    using find_order_loop_Some_iff [OF n0 order_refl inv, of max_order r]
          find_order_loop_None_iff [OF n0 order_refl inv, of max_order]
    by simp
qed

theorem find_order_smallest_order_witness:
  "(2::int) \<le> 15 \<and> (1::int) \<le> 2 \<and> (2::int) \<le> 15 - 1 \<and> gcd (2::int) 15 = 1 \<and> (0::int) < 15 \<and>
   find_order 2 15 (Some 15) = Inr (Some 4) \<and> (2::int) ^ nat 4 mod 15 = 1 \<and>
   (2::int) ^ nat 3 mod 15 \<noteq> 1"
proof -
  have found: "find_order 2 15 (Some 15) = Inr (Some 4)"
    by (simp add: find_order_def find_order_loop.simps)
  have cop: "gcd (2::int) 15 = 1" by code_simp
  from find_order_smallest_order [of 15 2 15 4] found cop show ?thesis by simp
qed

text \<open>
  C9. For every base, every modulus \<open>n \<ge> 1\<close> and every bound (given, or the default
  \<open>n\<close>) the order finder returns without an exception after at most \<open>max_order\<close>
  iterations of its loop; a returned \<open>r\<close> is reached in the \<open>r\<close>-th iteration, lies in
  \<open>[1, max_order]\<close>, satisfies \<open>a ^ r mod n = 1\<close> and is the smallest positive exponent
  that does; and where \<open>gcd a n \<noteq> 1\<close> the result is \<open>None\<close>. The base need not be
  coprime to \<open>n\<close>.
\<close>

theorem find_order_total_and_sound:
  assumes "1 \<le> n"
  shows "(\<exists>res. find_order a n bound = Inr res) \<and>
         find_order_iterations a n (case bound of None \<Rightarrow> n | Some m \<Rightarrow> m) 1 1
           \<le> nat (case bound of None \<Rightarrow> n | Some m \<Rightarrow> m) \<and>
         (\<forall>r. find_order a n bound = Inr (Some r) \<longrightarrow>
            find_order_iterations a n (case bound of None \<Rightarrow> n | Some m \<Rightarrow> m) 1 1 = nat r \<and>
            1 \<le> r \<and> r \<le> (case bound of None \<Rightarrow> n | Some m \<Rightarrow> m) \<and>
            a ^ nat r mod n = 1 \<and>
            (\<forall>k. 1 \<le> k \<and> k < r \<longrightarrow> a ^ nat k mod n \<noteq> 1)) \<and>
         (gcd a n \<noteq> 1 \<longrightarrow> find_order a n bound = Inr None)"
proof -
  define m where "m = (case bound of None \<Rightarrow> n | Some m \<Rightarrow> m)"
  have n0: "n \<noteq> 0" using assms by simp
  have inv: "1 mod n = a ^ nat (1 - 1) mod n" by simp
  have fo: "find_order a n bound = find_order_loop a n m 1 1"
    by (simp add: find_order_def m_def)
  have total: "\<exists>res. find_order a n bound = Inr res"
    unfolding fo using find_order_loop_no_error [OF n0] by simp
  have iters: "find_order_iterations a n m 1 1 \<le> nat m"
    using find_order_iterations_le [of a n m 1 1] by simp
  have sound: "find_order_iterations a n m 1 1 = nat r \<and> 1 \<le> r \<and> r \<le> m \<and>
      a ^ nat r mod n = 1 \<and> (\<forall>k. 1 \<le> k \<and> k < r \<longrightarrow> a ^ nat k mod n \<noteq> 1)"
    if "find_order a n bound = Inr (Some r)" for r
    using that find_order_loop_Some_iff [OF n0 order_refl inv, of m r]
          find_order_iterations_Some [of a n m 1 1 r]
    unfolding fo by simp
  have shared: "find_order a n bound = Inr None" if "gcd a n \<noteq> 1"
    unfolding fo
    using find_order_loop_None_iff [OF n0 order_refl inv, of m]
          shared_factor_no_order [OF assms that]
    by simp
  from total iters sound shared show ?thesis
    unfolding m_def by blast
qed

theorem find_order_total_and_sound_witness:
  "(1::int) \<le> 15 \<and> find_order 2 15 None = Inr (Some 4) \<and>
   find_order_iterations 2 15 15 1 1 = 4 \<and> (2::int) ^ nat 4 mod 15 = 1 \<and>
   gcd (3::int) 15 \<noteq> 1 \<and> find_order 3 15 None = Inr None"
proof -
  have found: "find_order 2 15 None = Inr (Some 4)"
    by (simp add: find_order_def find_order_loop.simps)
  have shared: "gcd (3::int) 15 \<noteq> 1" by code_simp
  have le: "(1::int) \<le> 15" by simp
  from find_order_total_and_sound [OF le, of 2 None]
       find_order_total_and_sound [OF le, of 3 None] found shared
  show ?thesis by simp
qed

section \<open>Existence of the order of a coprime base\<close>





section \<open>Narration\<close>

lemma say_quiet [simp]: "say env False out ls = (out, None)"
  by (simp add: say_def)

lemma print_lines_error: "print_lines env out ls = (out', Some e) \<Longrightarrow> e = ValueError"
  by (induction ls arbitrary: out) (auto split: if_splits)

lemma say_error: "say env verbose out ls = (out', Some e) \<Longrightarrow> e = ValueError"
  by (auto simp: say_def dest: print_lines_error split: if_splits)

lemma print_lines_fits:
  "list_all (\<lambda>l. list_all (str_fits (int_max_str_digits env)) (snd l)) ls \<Longrightarrow>
   print_lines env out ls = (out @ ls, None)"
  by (induction ls arbitrary: out) auto

lemma say_fits:
  "list_all (\<lambda>l. list_all (str_fits (int_max_str_digits env)) (snd l)) ls \<Longrightarrow>
   say env verbose out ls = (if verbose then out @ ls else out, None)"
  by (simp add: say_def print_lines_fits)

lemma str_fits_small:
  assumes "\<bar>x\<bar> \<le> 10000"
  shows "str_fits limit x"
proof -
  have "(10::int) ^ 5 \<le> 10 ^ max limit 640"
    by (rule power_increasing) auto
  moreover have "\<bar>x\<bar> < 10 ^ 5" using assms by simp
  ultimately show ?thesis unfolding str_fits_def by linarith
qed

lemma str_fits_le:
  assumes "str_fits limit n" "\<bar>x\<bar> \<le> \<bar>n\<bar>"
  shows "str_fits limit x"
  using assms unfolding str_fits_def by auto

lemma str_fits_power_limit:
  assumes "640 \<le> limit"
  shows "\<not> str_fits limit (10 ^ limit)"
proof -
  have "max limit 640 = limit" using assms by simp
  moreover have "\<bar>(10::int) ^ limit\<bar> = 10 ^ limit" by simp
  moreover have "limit \<noteq> 0" using assms by simp
  ultimately show ?thesis unfolding str_fits_def by simp
qed


section \<open>The factor engine\<close>

subsection \<open>From one run of the body to the recursive function\<close>

lemma shors_algorithm_Done:
  assumes "snd (snd (shors_attempt env rng n verbose out pos)) = Done res"
  shows "shors_algorithm env rng stack n verbose out pos =
           (fst (shors_attempt env rng n verbose out pos),
            fst (snd (shors_attempt env rng n verbose out pos)), res)"
  using assms by (cases stack; cases "shors_attempt env rng n verbose out pos") auto

lemma shors_algorithm_Retry_0:
  assumes "snd (snd (shors_attempt env rng n verbose out pos)) = Retry"
  shows "shors_algorithm env rng 0 n verbose out pos =
           (fst (shors_attempt env rng n verbose out pos),
            fst (snd (shors_attempt env rng n verbose out pos)), Inl RecursionError)"
  using assms by (cases "shors_attempt env rng n verbose out pos") auto


subsection \<open>The even check\<close>

lemma str_fits_half:
  assumes "str_fits limit n"
  shows "str_fits limit (n div 2)"
proof -
  have "\<bar>n div 2\<bar> \<le> \<bar>n\<bar>" by presburger
  with assms show ?thesis by (rule str_fits_le)
qed

lemma shors_attempt_even:
  assumes "n mod 2 = 0" "verbose \<longrightarrow> str_fits (int_max_str_digits env) n"
  shows "snd (shors_attempt env rng n verbose out pos) = (pos, Done (Inr (Some (2, n div 2))))"
proof (cases verbose)
  case False
  with assms(1) show ?thesis by (simp add: shors_attempt_def)
next
  case True
  with assms(2) have fits: "str_fits (int_max_str_digits env) n" by simp
  from fits have half: "str_fits (int_max_str_digits env) (n div 2)" by (rule str_fits_half)
  from assms(1) fits half show ?thesis
    by (simp add: shors_attempt_def say_fits)
qed

lemma shors_algorithm_even:
  assumes "n mod 2 = 0" "verbose \<longrightarrow> str_fits (int_max_str_digits env) n"
  shows "snd (shors_algorithm env rng stack n verbose out pos) = (pos, Inr (Some (2, n div 2)))"
  using shors_attempt_even [OF assms, of rng out pos]
  by (simp add: shors_algorithm_Done)

text \<open>
  C10. At \<open>n = 2\<close> the engine returns \<open>(2, 1)\<close>: the even check has no lower bound, and
  the second component is \<open>1\<close>.
\<close>

theorem two_gives_trivial_pair:
  "snd (snd (shors_algorithm env rng stack 2 verbose out pos)) = Inr (Some (2, 1))"
proof -
  have "str_fits (int_max_str_digits env) 2" by (rule str_fits_small) simp
  then show ?thesis
    using shors_algorithm_even [of 2 verbose env rng stack out pos] by simp
qed

theorem two_gives_trivial_pair_witness:
  "snd (snd (shors_algorithm
      \<lparr>log2_int = (\<lambda>n. 1), root_round = (\<lambda>n k. Inr 1), int_max_str_digits = 4300\<rparr>
      (\<lambda>i. 0) 0 2 True [] 0))
     = Inr (Some (2, 1))"
  by (rule two_gives_trivial_pair)


text \<open>
  An integer of more digits than the limit is not narrated: the heading raises
  ValueError before the even check is reached.
\<close>

lemma shors_attempt_heading_raises:
  assumes "\<not> str_fits (int_max_str_digits env) n"
  shows "snd (snd (shors_attempt env rng n True out pos)) = Done (Inl ValueError)"
  using assms by (simp add: shors_attempt_def say_def)

lemma power_of_ten_even_input:
  assumes "640 \<le> limit"
  shows "(10::int) ^ limit mod 2 = 0 \<and> 4 \<le> (10::int) ^ limit"
proof -
  have pos: "0 < limit" using assms by simp
  have "even ((10::int) ^ limit)" using pos by simp
  then have even: "(10::int) ^ limit mod 2 = 0" by presburger
  have "(10::int) ^ 1 \<le> 10 ^ limit"
    by (rule power_increasing) (use pos in auto)
  then have "4 \<le> (10::int) ^ limit" by simp
  with even show ?thesis by simp
qed

lemma shors_algorithm_beyond_limit:
  assumes "int_max_str_digits env = limit" "640 \<le> limit"
  shows "snd (snd (shors_algorithm env rng stack (10 ^ limit) True out pos)) = Inl ValueError \<and>
         (10::int) ^ limit mod 2 = 0 \<and> 4 \<le> (10::int) ^ limit"
proof -
  have "\<not> str_fits (int_max_str_digits env) (10 ^ limit)"
    using assms str_fits_power_limit [of limit] by simp
  then have "snd (snd (shors_attempt env rng (10 ^ limit) True out pos)) = Done (Inl ValueError)"
    by (rule shors_attempt_heading_raises)
  then have "snd (snd (shors_algorithm env rng stack (10 ^ limit) True out pos)) = Inl ValueError"
    by (simp only: shors_algorithm_Done snd_conv)
  then show ?thesis using power_of_ten_even_input [OF assms(2)] by (rule conjI)
qed

text \<open>
  C5, as the specification states it, fails where narration is on and \<open>n\<close> has more
  digits than the interpreter formats: with the limit 4300 the even number \<open>10 ^ 4300\<close>
  raises ValueError at the heading, and \<open>(2, n div 2)\<close> is not returned.
\<close>

theorem even_input_beyond_limit_raises:
  "snd (snd (shors_algorithm
      \<lparr>log2_int = (\<lambda>n. 14284), root_round = (\<lambda>n k. Inl OverflowError),
       int_max_str_digits = 4300\<rparr>
      (\<lambda>i. 0) 0 (10 ^ 4300) True [] 0)) = Inl ValueError \<and>
   (10::int) ^ 4300 mod 2 = 0 \<and> 4 \<le> (10::int) ^ 4300"
  by (rule shors_algorithm_beyond_limit) simp_all

text \<open>
  C5, amended. For every even \<open>n \<ge> 4\<close> that is run without narration, or that the
  interpreter can format, the engine returns \<open>(2, n div 2)\<close>, whatever the floating-point
  environment, the generator, its position and the stack are, and it leaves the position
  of the generator where it was: no random number is drawn, and nothing but the heading
  comes before the even check.
\<close>

theorem even_input_factors:
  assumes "n mod 2 = 0" "4 \<le> n" "verbose \<longrightarrow> str_fits (int_max_str_digits env) n"
  shows "snd (shors_algorithm env rng stack n verbose out pos) = (pos, Inr (Some (2, n div 2)))"
  using assms(1,3) by (rule shors_algorithm_even)

theorem even_input_factors_witness:
  "(6::int) mod 2 = 0 \<and> (4::int) \<le> 6 \<and> str_fits 4300 6 \<and>
   snd (shors_algorithm
      \<lparr>log2_int = (\<lambda>n. 2), root_round = (\<lambda>n k. Inr 2), int_max_str_digits = 4300\<rparr>
      (\<lambda>i. 0) 0 6 True [] 0)
     = (0, Inr (Some (2, 3)))"
proof -
  have fits: "str_fits 4300 6" by (rule str_fits_small) simp
  from fits
    even_input_factors [of 6 True
      "\<lparr>log2_int = (\<lambda>n. 2), root_round = (\<lambda>n k. Inr 2), int_max_str_digits = 4300\<rparr>"
      "\<lambda>i. 0" 0 "[]" 0]
  show ?thesis by simp
qed


section \<open>Steps 6 to 10\<close>

text \<open>What steps 6 to 10 decide, without the narration.\<close>

lemma factor_extraction_quiet:
  "factor_extraction env a r n False out =
     (out,
      if r mod 2 = 1 then Retry
      else if a ^ nat (r div 2) mod n = n - 1 then Retry
      else if 1 < gcd (a ^ nat (r div 2) mod n - 1) n \<and> gcd (a ^ nat (r div 2) mod n - 1) n < n
      then Done (Inr (Some (gcd (a ^ nat (r div 2) mod n - 1) n,
                            n div gcd (a ^ nat (r div 2) mod n - 1) n)))
      else if 1 < gcd (a ^ nat (r div 2) mod n + 1) n \<and> gcd (a ^ nat (r div 2) mod n + 1) n < n
      then Done (Inr (Some (gcd (a ^ nat (r div 2) mod n + 1) n,
                            n div gcd (a ^ nat (r div 2) mod n + 1) n)))
      else Retry)"
proof -
  consider (odd) "r mod 2 = 1"
    | (minus_one) "r mod 2 \<noteq> 1" "a ^ nat (r div 2) mod n = n - 1"
    | (first) "r mod 2 \<noteq> 1" "a ^ nat (r div 2) mod n \<noteq> n - 1"
        "1 < gcd (a ^ nat (r div 2) mod n - 1) n \<and> gcd (a ^ nat (r div 2) mod n - 1) n < n"
    | (second) "r mod 2 \<noteq> 1" "a ^ nat (r div 2) mod n \<noteq> n - 1"
        "\<not> (1 < gcd (a ^ nat (r div 2) mod n - 1) n \<and> gcd (a ^ nat (r div 2) mod n - 1) n < n)"
        "1 < gcd (a ^ nat (r div 2) mod n + 1) n \<and> gcd (a ^ nat (r div 2) mod n + 1) n < n"
    | (none) "r mod 2 \<noteq> 1" "a ^ nat (r div 2) mod n \<noteq> n - 1"
        "\<not> (1 < gcd (a ^ nat (r div 2) mod n - 1) n \<and> gcd (a ^ nat (r div 2) mod n - 1) n < n)"
        "\<not> (1 < gcd (a ^ nat (r div 2) mod n + 1) n \<and> gcd (a ^ nat (r div 2) mod n + 1) n < n)"
    by blast
  then show ?thesis
  proof cases
    case odd
    then show ?thesis
      unfolding factor_extraction_def say_quiet Let_def prod.case option.case
      by (simp only: if_True if_False simp_thms)
  next
    case minus_one
    then show ?thesis
      unfolding factor_extraction_def say_quiet Let_def prod.case option.case
      by (simp only: if_True if_False simp_thms)
  next
    case first
    then show ?thesis
      unfolding factor_extraction_def say_quiet Let_def prod.case option.case
      by (simp only: if_True if_False simp_thms)
  next
    case second
    then show ?thesis
      unfolding factor_extraction_def say_quiet Let_def prod.case option.case
      by (simp only: if_True if_False simp_thms)
  next
    case none
    then show ?thesis
      unfolding factor_extraction_def say_quiet Let_def prod.case option.case
      by (simp only: if_True if_False simp_thms)
  qed
qed

lemma after_say_pair:
  assumes "\<And>out'. snd (K out') = R \<or> snd (K out') = Done (Inl ValueError)"
  shows "snd (case say env v out ls of
                (out, Some e) \<Rightarrow> (out, Done (Inl e))
              | (out, None) \<Rightarrow> K out) = R \<or>
         snd (case say env v out ls of
                (out, Some e) \<Rightarrow> (out, Done (Inl e))
              | (out, None) \<Rightarrow> K out) = Done (Inl ValueError)"
proof (cases "say env v out ls")
  case (Pair out' raised)
  show ?thesis
  proof (cases raised)
    case None
    with Pair assms [of out'] show ?thesis by simp
  next
    case (Some e)
    with Pair say_error [of env v out ls out' e] show ?thesis by simp
  qed
qed

lemma factor_extraction_verbose_or_error:
  "snd (factor_extraction env a r n verbose out) = snd (factor_extraction env a r n False []) \<or>
   snd (factor_extraction env a r n verbose out) = Done (Inl ValueError)"
proof -
  consider (odd) "r mod 2 = 1"
    | (minus_one) "r mod 2 \<noteq> 1" "a ^ nat (r div 2) mod n = n - 1"
    | (first) "r mod 2 \<noteq> 1" "a ^ nat (r div 2) mod n \<noteq> n - 1"
        "1 < gcd (a ^ nat (r div 2) mod n - 1) n \<and> gcd (a ^ nat (r div 2) mod n - 1) n < n"
    | (second) "r mod 2 \<noteq> 1" "a ^ nat (r div 2) mod n \<noteq> n - 1"
        "\<not> (1 < gcd (a ^ nat (r div 2) mod n - 1) n \<and> gcd (a ^ nat (r div 2) mod n - 1) n < n)"
        "1 < gcd (a ^ nat (r div 2) mod n + 1) n \<and> gcd (a ^ nat (r div 2) mod n + 1) n < n"
    | (none) "r mod 2 \<noteq> 1" "a ^ nat (r div 2) mod n \<noteq> n - 1"
        "\<not> (1 < gcd (a ^ nat (r div 2) mod n - 1) n \<and> gcd (a ^ nat (r div 2) mod n - 1) n < n)"
        "\<not> (1 < gcd (a ^ nat (r div 2) mod n + 1) n \<and> gcd (a ^ nat (r div 2) mod n + 1) n < n)"
    by blast
  then show ?thesis
  proof cases
    case odd
    then show ?thesis
      apply (simp only: factor_extraction_quiet)
      apply (simp only: factor_extraction_def Let_def if_True if_False simp_thms snd_conv)
      apply (rule after_say_pair)+
      apply (simp only: snd_conv simp_thms)
      done
  next
    case minus_one
    then show ?thesis
      apply (simp only: factor_extraction_quiet)
      apply (simp only: factor_extraction_def Let_def if_True if_False simp_thms snd_conv)
      apply (rule after_say_pair)+
      apply (simp only: snd_conv simp_thms)
      done
  next
    case first
    then show ?thesis
      apply (simp only: factor_extraction_quiet)
      apply (simp only: factor_extraction_def Let_def if_True if_False simp_thms snd_conv)
      apply (rule after_say_pair)+
      apply (simp only: snd_conv simp_thms)
      done
  next
    case second
    then show ?thesis
      apply (simp only: factor_extraction_quiet)
      apply (simp only: factor_extraction_def Let_def if_True if_False simp_thms snd_conv)
      apply (rule after_say_pair)+
      apply (simp only: snd_conv simp_thms)
      done
  next
    case none
    then show ?thesis
      apply (simp only: factor_extraction_quiet)
      apply (simp only: factor_extraction_def Let_def if_True if_False simp_thms snd_conv)
      apply (rule after_say_pair)+
      apply (simp only: snd_conv simp_thms)
      done
  qed
qed


lemma factor_extraction_Some:
  assumes "snd (factor_extraction env a r n False []) = Done (Inr (Some (p, q)))"
  shows "1 < p \<and> p < n \<and> p dvd n \<and> q = n div p"
  using assms
  by (simp only: factor_extraction_quiet snd_conv) (auto split: if_splits)

lemma factor_extraction_error:
  "snd (factor_extraction env a r n False []) \<noteq> Done (Inl e)"
  by (simp only: factor_extraction_quiet snd_conv) (simp split: if_split)

text \<open>Integers that are formatted when the modulus is.\<close>

lemma str_fits_mod:
  assumes "str_fits limit n" "0 < n"
  shows "str_fits limit (y mod n)"
proof -
  have "0 \<le> y mod n" "y mod n < n" using assms(2) by simp_all
  then have "\<bar>y mod n\<bar> \<le> \<bar>n\<bar>" by simp
  with assms(1) show ?thesis by (rule str_fits_le)
qed

lemma str_fits_gcd:
  assumes "str_fits limit n" "0 < n"
  shows "str_fits limit (gcd y n)"
proof -
  have "0 \<le> gcd y n" by simp
  moreover have "gcd y n \<le> n" using assms(2) by (rule gcd_le2_int)
  ultimately have "\<bar>gcd y n\<bar> \<le> \<bar>n\<bar>" by simp
  with assms(1) show ?thesis by (rule str_fits_le)
qed

lemma str_fits_div:
  assumes "str_fits limit n" "0 < n" "0 < f"
  shows "str_fits limit (n div f)"
proof -
  have "0 \<le> n div f" using assms(2,3) by (simp add: pos_imp_zdiv_nonneg_iff)
  moreover have "n div f \<le> n" using assms(2,3) by (simp add: zdiv_mono2 [of n 1 f, simplified])
  ultimately have "\<bar>n div f\<bar> \<le> \<bar>n\<bar>" by simp
  with assms(1) show ?thesis by (rule str_fits_le)
qed

lemma str_fits_mult_div:
  assumes "str_fits limit n" "0 < n" "0 < f"
  shows "str_fits limit (f * (n div f))"
proof -
  have "f * (n div f) = n - n mod f" by (simp add: minus_mod_eq_mult_div)
  moreover have "0 \<le> n mod f" "n mod f \<le> n"
    using assms(2,3) by (simp_all add: zmod_le_nonneg_dividend)
  ultimately have "\<bar>f * (n div f)\<bar> \<le> \<bar>n\<bar>" by simp
  with assms(1) show ?thesis by (rule str_fits_le)
qed


section \<open>Step 5\<close>

lemma order_stage_quiet:
  "order_stage env a n False out =
     (out, case find_order a n None of
             Inl e \<Rightarrow> Done (Inl e)
           | Inr None \<Rightarrow> Done (Inr None)
           | Inr (Some r) \<Rightarrow> snd (factor_extraction env a r n False []))"
proof (cases "find_order a n None")
  case (Inl e)
  then show ?thesis by (simp add: order_stage_def)
next
  case (Inr found)
  show ?thesis
  proof (cases found)
    case None
    with Inr show ?thesis by (simp add: order_stage_def)
  next
    case (Some r)
    have "factor_extraction env a r n False out = (out, snd (factor_extraction env a r n False []))"
      by (simp only: factor_extraction_quiet snd_conv)
    with Inr Some show ?thesis by (simp add: order_stage_def)
  qed
qed

lemma order_stage_verbose_or_error:
  "snd (order_stage env a n verbose out) = snd (order_stage env a n False []) \<or>
   snd (order_stage env a n verbose out) = Done (Inl ValueError)"
proof (cases "find_order a n None")
  case (Inl e)
  then show ?thesis
    apply (simp only: order_stage_quiet snd_conv sum.case)
    apply (simp only: order_stage_def sum.case)
    apply (rule after_say_pair)
    apply (simp only: snd_conv simp_thms)
    done
next
  case (Inr found)
  show ?thesis
  proof (cases found)
    case None
    with Inr show ?thesis
      apply (simp only: order_stage_quiet snd_conv sum.case option.case)
      apply (simp only: order_stage_def sum.case option.case)
      apply (rule after_say_pair)+
      apply (simp only: snd_conv simp_thms)
      done
  next
    case (Some r)
    with Inr show ?thesis
      apply (simp only: order_stage_quiet snd_conv sum.case option.case)
      apply (simp only: order_stage_def sum.case option.case)
      apply (rule after_say_pair)+
      apply (rule factor_extraction_verbose_or_error)
      done
  qed
qed


lemma order_stage_Some:
  assumes "snd (order_stage env a n False []) = Done (Inr (Some (p, q)))"
  shows "1 < p \<and> p < n \<and> p dvd n \<and> q = n div p"
proof (cases "find_order a n None")
  case (Inl e)
  with assms show ?thesis by (simp add: order_stage_quiet)
next
  case (Inr found)
  show ?thesis
  proof (cases found)
    case None
    with Inr assms show ?thesis by (simp add: order_stage_quiet)
  next
    case (Some r)
    with Inr assms have "snd (factor_extraction env a r n False []) = Done (Inr (Some (p, q)))"
      by (simp add: order_stage_quiet)
    then show ?thesis by (rule factor_extraction_Some)
  qed
qed


section \<open>Steps 3 and 4\<close>

lemma after_say_triple:
  assumes "\<And>out'. snd (K out') = R \<or> snd (snd (K out')) = E ValueError"
  shows "snd (case say env v out ls of
                (out, Some e) \<Rightarrow> (out, p, E e)
              | (out, None) \<Rightarrow> K out) = R \<or>
         snd (snd (case say env v out ls of
                (out, Some e) \<Rightarrow> (out, p, E e)
              | (out, None) \<Rightarrow> K out)) = E ValueError"
proof (cases "say env v out ls")
  case (Pair out' raised)
  show ?thesis
  proof (cases raised)
    case None
    with Pair assms [of out'] show ?thesis by simp
  next
    case (Some e)
    with Pair say_error [of env v out ls out' e] show ?thesis by simp
  qed
qed

lemma randint_range:
  assumes "randint rng i lo hi = Inr a"
  shows "lo \<le> a \<and> a \<le> hi"
proof -
  from assms have le: "lo \<le> hi" and a: "a = lo + rng i mod (hi - lo + 1)"
    by (auto simp: randint_def split: if_splits)
  have width: "0 < hi - lo + 1" using le by simp
  have "0 \<le> rng i mod (hi - lo + 1)"
    using width by (rule pos_mod_sign)
  moreover have "rng i mod (hi - lo + 1) < hi - lo + 1"
    using width by (rule pos_mod_bound)
  ultimately show ?thesis using a by linarith
qed

lemma randint_error:
  assumes "randint rng i lo hi = Inl e"
  shows "e = ValueError \<and> hi < lo"
  using assms by (auto simp: randint_def split: if_splits)

lemma sampling_loop_quiet:
  "sampling_loop env rng n False as a out pos =
     (out, snd (sampling_loop env rng n False as a [] pos))"
proof (induction as arbitrary: a out pos)
  case Nil
  show ?case by simp
next
  case (Cons attempt rest)
  show ?case
  proof (cases "randint rng pos 2 (n - 1)")
    case (Inl e)
    then show ?thesis by simp
  next
    case (Inr a')
    show ?thesis
    proof (cases "gcd a' n = 1")
      case True
      with Inr Cons.IH [of "Some a'" out "pos + 1"] show ?thesis by (simp add: Let_def)
    next
      case False
      with Inr show ?thesis by (simp add: Let_def)
    qed
  qed
qed

lemma sampling_loop_verbose_or_error:
  "snd (sampling_loop env rng n verbose as a out pos) =
     snd (sampling_loop env rng n False as a [] pos) \<or>
   snd (snd (sampling_loop env rng n verbose as a out pos)) = Inl ValueError"
proof (induction as arbitrary: a out pos)
  case Nil
  show ?case by simp
next
  case (Cons attempt rest)
  show ?case
  proof (cases "randint rng pos 2 (n - 1)")
    case (Inl e)
    then show ?thesis by simp
  next
    case (Inr a')
    show ?thesis
    proof (cases "gcd a' n = 1")
      case True
      have quiet: "snd (sampling_loop env rng n False (attempt # rest) a [] pos) =
                   snd (sampling_loop env rng n False rest (Some a') [] (pos + 1))"
        using Inr True by (simp add: Let_def)
      show ?thesis
        apply (simp only: quiet)
        apply (simp only: sampling_loop.simps Inr True sum.case Let_def simp_thms if_False)
        apply (rule after_say_triple)
        apply (rule Cons.IH)
        done
    next
      case False
      have quiet: "snd (sampling_loop env rng n False (attempt # rest) a [] pos) =
                   (pos + 1, Inr (Return (gcd a' n, n div gcd a' n)))"
        using Inr False by (simp add: Let_def)
      show ?thesis
        apply (simp only: quiet)
        apply (simp only: sampling_loop.simps Inr False sum.case Let_def simp_thms if_True)
        apply (rule after_say_triple)+
        apply (simp only: snd_conv simp_thms)
        done
    qed
  qed
qed


text \<open>What the sampling loop leaves, without the narration.\<close>

lemma sampling_loop_exit:
  "(case snd (snd (sampling_loop env rng n False as a [] pos)) of
      Inl e \<Rightarrow> e = ValueError \<and> n < 3
    | Inr (Return (g, q)) \<Rightarrow>
        (\<exists>a'. 2 \<le> a' \<and> a' \<le> n - 1 \<and> g = gcd a' n \<and> g \<noteq> 1 \<and> q = n div g)
    | Inr (Fallthrough b) \<Rightarrow>
        (as = [] \<and> b = a) \<or> (\<exists>a'. b = Some a' \<and> 2 \<le> a' \<and> a' \<le> n - 1 \<and> gcd a' n = 1))"
proof (induction as arbitrary: a pos)
  case Nil
  show ?case by simp
next
  case (Cons attempt rest)
  show ?case
  proof (cases "randint rng pos 2 (n - 1)")
    case (Inl e)
    with randint_error [OF Inl] show ?thesis by simp
  next
    case (Inr a')
    note range = randint_range [OF Inr]
    show ?thesis
    proof (cases "gcd a' n = 1")
      case False
      with Inr range show ?thesis by (auto simp: Let_def)
    next
      case True
      have step: "sampling_loop env rng n False (attempt # rest) a [] pos =
                  sampling_loop env rng n False rest (Some a') [] (pos + 1)"
        using Inr True by (simp add: Let_def)
      show ?thesis
      proof (cases "snd (snd (sampling_loop env rng n False rest (Some a') [] (pos + 1)))")
        case (Inl e)
        with Cons.IH [of "Some a'" "pos + 1"] step show ?thesis by simp
      next
        case exit: (Inr ex)
        show ?thesis
        proof (cases ex)
          case (Return gq)
          with exit Cons.IH [of "Some a'" "pos + 1"] step show ?thesis
            by (cases gq) simp
        next
          case (Fallthrough b)
          with exit Cons.IH [of "Some a'" "pos + 1"] step range True show ?thesis
            by auto
        qed
      qed
    qed
  qed
qed



lemma sampling_stage_quiet:
  "sampling_stage env rng n False a out pos =
     (out,
      case snd (sampling_loop env rng n False [0..<max_attempts] a [] pos) of
        (pos', Inl e) \<Rightarrow> (pos', Done (Inl e))
      | (pos', Inr (Return (g, q))) \<Rightarrow> (pos', Done (Inr (Some (g, q))))
      | (pos', Inr (Fallthrough None)) \<Rightarrow> (pos', Done (Inl UnboundLocalError))
      | (pos', Inr (Fallthrough (Some a'))) \<Rightarrow> (pos', snd (order_stage env a' n False [])))"
proof -
  obtain p x where quiet: "snd (sampling_loop env rng n False [0..<max_attempts] a [] pos) = (p, x)"
    by (rule prod.exhaust)
  then have loop: "sampling_loop env rng n False [0..<max_attempts] a out pos = (out, p, x)"
    using sampling_loop_quiet [of env rng n "[0..<max_attempts]" a out pos] by simp
  have order: "order_stage env a' n False out = (out, snd (order_stage env a' n False []))" for a'
    by (simp only: order_stage_quiet snd_conv)
  show ?thesis
    by (simp add: sampling_stage_def loop quiet order
             split: sum.split loop_exit.split option.split prod.split)
qed

lemma sampling_stage_verbose_or_error:
  "snd (sampling_stage env rng n verbose a out pos) =
     snd (sampling_stage env rng n False a [] pos) \<or>
   snd (snd (sampling_stage env rng n verbose a out pos)) = Done (Inl ValueError)"
proof -
  define R where "R = snd (sampling_stage env rng n False a [] pos)"
  obtain p0 x0 where quiet:
    "snd (sampling_loop env rng n False [0..<max_attempts] a [] pos) = (p0, x0)"
    by (rule prod.exhaust)
  have body:
    "snd (case sampling_loop env rng n verbose [0..<max_attempts] a out' pos of
            (out, pos, Inl e) \<Rightarrow> (out, pos, Done (Inl e))
          | (out, pos, Inr (Return (g, q))) \<Rightarrow> (out, pos, Done (Inr (Some (g, q))))
          | (out, pos, Inr (Fallthrough None)) \<Rightarrow> (out, pos, Done (Inl UnboundLocalError))
          | (out, pos, Inr (Fallthrough (Some a))) \<Rightarrow>
              (case order_stage env a n verbose out of
                 (out, res) \<Rightarrow> (out, pos, res))) = R \<or>
     snd (snd (case sampling_loop env rng n verbose [0..<max_attempts] a out' pos of
            (out, pos, Inl e) \<Rightarrow> (out, pos, Done (Inl e))
          | (out, pos, Inr (Return (g, q))) \<Rightarrow> (out, pos, Done (Inr (Some (g, q))))
          | (out, pos, Inr (Fallthrough None)) \<Rightarrow> (out, pos, Done (Inl UnboundLocalError))
          | (out, pos, Inr (Fallthrough (Some a))) \<Rightarrow>
              (case order_stage env a n verbose out of
                 (out, res) \<Rightarrow> (out, pos, res)))) = Done (Inl ValueError)"
    for out'
  proof -
    obtain o1 p1 x1 where loud:
      "sampling_loop env rng n verbose [0..<max_attempts] a out' pos = (o1, p1, x1)"
      by (rule prod_cases3)
    from sampling_loop_verbose_or_error [of env rng n verbose "[0..<max_attempts]" a out' pos]
    have "(p1, x1) = (p0, x0) \<or> x1 = Inl ValueError"
      by (simp add: loud quiet)
    then show ?thesis
    proof
      assume "x1 = Inl ValueError"
      then show ?thesis by (simp add: loud)
    next
      assume "(p1, x1) = (p0, x0)"
      then have same: "p1 = p0" "x1 = x0" by simp_all
      show ?thesis
      proof (cases x0)
        case (Inl e)
        then show ?thesis by (simp add: loud same R_def sampling_stage_quiet quiet)
      next
        case exit: (Inr ex)
        show ?thesis
        proof (cases ex)
          case (Return gq)
          with exit show ?thesis
            by (cases gq) (simp add: loud same R_def sampling_stage_quiet quiet)
        next
          case ft: (Fallthrough b)
          show ?thesis
          proof (cases b)
            case None
            with exit ft show ?thesis
              by (simp add: loud same R_def sampling_stage_quiet quiet)
          next
            case (Some a')
            obtain o2 res where ord: "order_stage env a' n verbose o1 = (o2, res)"
              by (rule prod.exhaust)
            from order_stage_verbose_or_error [of env a' n verbose o1] ord
            have "res = snd (order_stage env a' n False []) \<or> res = Done (Inl ValueError)"
              by simp
            with exit ft Some ord show ?thesis
              by (auto simp: loud same R_def sampling_stage_quiet quiet)
          qed
        qed
      qed
    qed
  qed
  have "snd (sampling_stage env rng n verbose a out pos) = R \<or>
        snd (snd (sampling_stage env rng n verbose a out pos)) = Done (Inl ValueError)"
    unfolding sampling_stage_def by (rule after_say_triple) (rule body)
  then show ?thesis by (simp only: R_def)
qed


section \<open>Step 2, step 1 and the recursion\<close>

lemma perfect_power_stage_quiet:
  "perfect_power_stage env rng n False out pos =
     (out,
      if n \<le> 0 then (pos, Done (Inl ValueError))
      else case perfect_power_loop env n [2..log2_int env n] None of
             Inl e \<Rightarrow> (pos, Done (Inl e))
           | Inr (Return (a, k)) \<Rightarrow> (pos, Done (Inr (Some (a, a ^ nat (k - 1)))))
           | Inr (Fallthrough a) \<Rightarrow> snd (sampling_stage env rng n False a [] pos))"
proof -
  have stage: "sampling_stage env rng n False a out pos =
               (out, snd (sampling_stage env rng n False a [] pos))" for a
    by (simp only: sampling_stage_quiet snd_conv)
  show ?thesis
    by (simp add: perfect_power_stage_def stage
             split: sum.split loop_exit.split prod.split)
qed

lemma perfect_power_stage_verbose_or_error:
  "snd (perfect_power_stage env rng n verbose out pos) =
     snd (perfect_power_stage env rng n False [] pos) \<or>
   snd (snd (perfect_power_stage env rng n verbose out pos)) = Done (Inl ValueError)"
proof -
  define R where "R = snd (perfect_power_stage env rng n False [] pos)"
  have body:
    "snd (if n \<le> 0 then (out', pos, Done (Inl ValueError))
          else case perfect_power_loop env n [2..log2_int env n] None of
                 Inl e \<Rightarrow> (out', pos, Done (Inl e))
               | Inr (Return (a, k)) \<Rightarrow>
                   (case say env verbose out'
                           [(''[ok] {} = {}^{}'', [n, a, k]),
                            (''  Factors: {} x {}'', [a, a ^ nat (k - 1)])] of
                      (out, Some e) \<Rightarrow> (out, pos, Done (Inl e))
                    | (out, None) \<Rightarrow> (out, pos, Done (Inr (Some (a, a ^ nat (k - 1))))))
               | Inr (Fallthrough a) \<Rightarrow> sampling_stage env rng n verbose a out' pos) = R \<or>
     snd (snd (if n \<le> 0 then (out', pos, Done (Inl ValueError))
          else case perfect_power_loop env n [2..log2_int env n] None of
                 Inl e \<Rightarrow> (out', pos, Done (Inl e))
               | Inr (Return (a, k)) \<Rightarrow>
                   (case say env verbose out'
                           [(''[ok] {} = {}^{}'', [n, a, k]),
                            (''  Factors: {} x {}'', [a, a ^ nat (k - 1)])] of
                      (out, Some e) \<Rightarrow> (out, pos, Done (Inl e))
                    | (out, None) \<Rightarrow> (out, pos, Done (Inr (Some (a, a ^ nat (k - 1))))))
               | Inr (Fallthrough a) \<Rightarrow> sampling_stage env rng n verbose a out' pos)) =
       Done (Inl ValueError)"
    for out'
  proof (cases "n \<le> 0")
    case True
    then show ?thesis by (simp add: R_def perfect_power_stage_quiet)
  next
    case positive: False
    show ?thesis
    proof (cases "perfect_power_loop env n [2..log2_int env n] None")
      case (Inl e)
      with positive show ?thesis by (simp add: R_def perfect_power_stage_quiet)
    next
      case exit: (Inr ex)
      show ?thesis
      proof (cases ex)
        case (Return ak)
        obtain a k where ak: "ak = (a, k)" by (rule prod.exhaust)
        have quiet: "R = (pos, Done (Inr (Some (a, a ^ nat (k - 1)))))"
          using positive exit Return ak by (simp add: R_def perfect_power_stage_quiet)
        show ?thesis
          apply (simp only: positive exit Return ak if_False sum.case loop_exit.case prod.case quiet)
          apply (rule after_say_triple)
          apply (simp only: snd_conv simp_thms)
          done
      next
        case (Fallthrough a)
        have quiet: "R = snd (sampling_stage env rng n False a [] pos)"
          using positive exit Fallthrough by (simp add: R_def perfect_power_stage_quiet)
        show ?thesis
          apply (simp only: positive exit Fallthrough if_False sum.case loop_exit.case quiet)
          apply (rule sampling_stage_verbose_or_error)
          done
      qed
    qed
  qed
  have "snd (perfect_power_stage env rng n verbose out pos) = R \<or>
        snd (snd (perfect_power_stage env rng n verbose out pos)) = Done (Inl ValueError)"
    unfolding perfect_power_stage_def by (rule after_say_triple) (rule body)
  then show ?thesis by (simp only: R_def)
qed

lemma shors_attempt_quiet:
  "shors_attempt env rng n False out pos =
     (out,
      if n mod 2 = 0 then (pos, Done (Inr (Some (2, n div 2))))
      else snd (perfect_power_stage env rng n False [] pos))"
proof -
  have stage: "perfect_power_stage env rng n False out pos =
               (out, snd (perfect_power_stage env rng n False [] pos))"
    by (simp only: perfect_power_stage_quiet snd_conv)
  show ?thesis
    by (simp add: shors_attempt_def stage)
qed

lemma shors_attempt_verbose_or_error:
  "snd (shors_attempt env rng n verbose out pos) =
     snd (shors_attempt env rng n False [] pos) \<or>
   snd (snd (shors_attempt env rng n verbose out pos)) = Done (Inl ValueError)"
proof -
  define R where "R = snd (shors_attempt env rng n False [] pos)"
  have body:
    "snd (if n mod 2 = 0
          then (case say env verbose out'
                       [(''[ok] Number is even'', []),
                        (''  Factors: 2 x {}'', [n div 2])] of
                  (out, Some e) \<Rightarrow> (out, pos, Done (Inl e))
                | (out, None) \<Rightarrow> (out, pos, Done (Inr (Some (2, n div 2)))))
          else perfect_power_stage env rng n verbose out' pos) = R \<or>
     snd (snd (if n mod 2 = 0
          then (case say env verbose out'
                       [(''[ok] Number is even'', []),
                        (''  Factors: 2 x {}'', [n div 2])] of
                  (out, Some e) \<Rightarrow> (out, pos, Done (Inl e))
                | (out, None) \<Rightarrow> (out, pos, Done (Inr (Some (2, n div 2)))))
          else perfect_power_stage env rng n verbose out' pos)) = Done (Inl ValueError)"
    for out'
  proof (cases "n mod 2 = 0")
    case True
    have quiet: "R = (pos, Done (Inr (Some (2, n div 2))))"
      using True by (simp add: R_def shors_attempt_quiet)
    show ?thesis
      apply (simp only: True if_True simp_thms quiet)
      apply (rule after_say_triple)
      apply (simp only: snd_conv simp_thms)
      done
  next
    case False
    have quiet: "R = snd (perfect_power_stage env rng n False [] pos)"
      using False by (simp add: R_def shors_attempt_quiet)
    show ?thesis
      apply (simp only: False if_False quiet)
      apply (rule perfect_power_stage_verbose_or_error)
      done
  qed
  have "snd (shors_attempt env rng n verbose out pos) = R \<or>
        snd (snd (shors_attempt env rng n verbose out pos)) = Done (Inl ValueError)"
    unfolding shors_attempt_def by (rule after_say_triple) (rule body)
  then show ?thesis by (simp only: R_def)
qed

lemma shors_algorithm_quiet:
  "snd (shors_algorithm env rng stack n False out pos) =
   snd (shors_algorithm env rng stack n False [] pos)"
proof (induction stack arbitrary: out pos)
  case 0
  show ?case
    by (simp add: shors_attempt_quiet split: prod.split attempt.split)
next
  case (Suc stack)
  obtain p res where run: "snd (shors_attempt env rng n False [] pos) = (p, res)"
    by (rule prod.exhaust)
  have attempt: "shors_attempt env rng n False out' pos = (out', p, res)" for out'
    using run shors_attempt_quiet [of env rng n out' pos] shors_attempt_quiet [of env rng n "[]" pos]
    by simp
  show ?case
  proof (cases res)
    case (Done val)
    then show ?thesis by (simp add: attempt)
  next
    case Retry
    then show ?thesis
      using Suc.IH [of out p] by (simp add: attempt)
  qed
qed

lemma shors_algorithm_verbose_or_error:
  "snd (shors_algorithm env rng stack n verbose out pos) =
     snd (shors_algorithm env rng stack n False [] pos) \<or>
   snd (snd (shors_algorithm env rng stack n verbose out pos)) = Inl ValueError"
proof -
  obtain o1 p1 r1 where loud: "shors_attempt env rng n verbose out pos = (o1, p1, r1)"
    by (rule prod_cases3)
  obtain o0 p0 r0 where quiet: "shors_attempt env rng n False [] pos = (o0, p0, r0)"
    by (rule prod_cases3)
  from shors_attempt_verbose_or_error [of env rng n verbose out pos]
  have "(p1, r1) = (p0, r0) \<or> r1 = Done (Inl ValueError)"
    by (simp add: loud quiet)
  then show ?thesis
  proof
    assume "r1 = Done (Inl ValueError)"
    then show ?thesis by (cases stack) (simp_all add: loud)
  next
    assume "(p1, r1) = (p0, r0)"
    then have same: "p1 = p0" "r1 = r0" by simp_all
    show ?thesis
    proof (cases r0)
      case (Done val)
      then show ?thesis by (cases stack) (simp_all add: loud quiet same)
    next
      case Retry
      show ?thesis
      proof (cases stack)
        case 0
        with Retry show ?thesis by (simp add: loud quiet same)
      next
        case (Suc stack')
        with Retry show ?thesis
          using shors_algorithm_quiet [of env rng stack' n o1 p0]
                shors_algorithm_quiet [of env rng stack' n o0 p0]
          by (simp add: loud quiet same)
      qed
    qed
  qed
qed


section \<open>The engine never returns None\<close>









section \<open>The returned pair\<close>

lemma nontrivial_cofactor:
  assumes "1 < p" "p < n" "p dvd (n::int)"
  shows "p * (n div p) = n \<and> 1 < n div p \<and> n div p < n"
proof -
  define q where "q = n div p"
  have n: "n = p * q" using assms(3) by (simp add: q_def)
  have "0 < q" using assms(1,2) by (simp add: q_def pos_imp_zdiv_pos_iff)
  moreover have "q \<noteq> 1" using n assms(2) by auto
  ultimately have q: "2 \<le> q" by simp
  have "2 * q \<le> p * q" using assms(1) q by (intro mult_right_mono) simp_all
  then have "q < n" using n q by simp
  with n q show ?thesis by (simp add: q_def)
qed

lemma shared_factor_nontrivial:
  assumes "2 \<le> a" "a \<le> n - 1" "gcd a n \<noteq> (1::int)"
  shows "1 < gcd a n \<and> gcd a n < n \<and> gcd a n dvd n"
proof -
  have nonneg: "0 \<le> gcd a n" by simp
  have nonzero: "gcd a n \<noteq> 0" using assms(1) by simp
  from nonneg nonzero assms(3) have low: "1 < gcd a n" by arith
  have "gcd a n \<le> a" using assms(1) by (intro gcd_le1_int) simp
  with assms(2) have "gcd a n < n" by simp
  with low show ?thesis by simp
qed

lemma perfect_power_loop_Return:
  "perfect_power_loop env n ks a0 = Inr (Return (a, k)) \<Longrightarrow>
   0 \<le> a \<and> a ^ nat k = n \<and> k \<in> set ks"
proof (induction ks arbitrary: a0)
  case Nil
  then show ?case by simp
next
  case (Cons j ks)
  show ?case
  proof (cases "root_round env n j")
    case (Inl e)
    with Cons.prems show ?thesis by simp
  next
    case (Inr b)
    show ?thesis
    proof (cases "int b ^ nat j = n")
      case True
      with Inr Cons.prems show ?thesis by auto
    next
      case False
      with Inr Cons.prems
      have "perfect_power_loop env n ks (Some (int b)) = Inr (Return (a, k))" by simp
      from Cons.IH [OF this] show ?thesis by simp
    qed
  qed
qed

lemma perfect_power_pair:
  assumes "0 \<le> a" "a ^ nat k = (n::int)" "2 \<le> k"
  shows "a * a ^ nat (k - 1) = n \<and>
         (3 \<le> n \<longrightarrow> 1 < a \<and> a < n \<and> 1 < a ^ nat (k - 1) \<and> a ^ nat (k - 1) < n)"
proof -
  define m where "m = nat (k - 1)"
  have k: "nat k = Suc m" "1 \<le> m" using assms(3) by (simp_all add: m_def)
  have n: "n = a * a ^ m" using assms(2) k(1) by simp
  have bounds: "1 < a \<and> a < n \<and> 1 < a ^ m \<and> a ^ m < n" if "3 \<le> n"
  proof -
    have "a \<noteq> 0" using n that by auto
    moreover have "a \<noteq> 1" using n that by auto
    ultimately have a: "2 \<le> a" using assms(1) by simp
    have "a ^ 1 \<le> a ^ m" using a k(2) by (intro power_increasing) simp_all
    then have q: "2 \<le> a ^ m" using a by simp
    have "2 * a ^ m \<le> a * a ^ m" using a q by (intro mult_right_mono) simp_all
    then have "a ^ m < n" using n q by simp
    moreover have "a * 2 \<le> a * a ^ m" using a q by (intro mult_left_mono) simp_all
    then have "a < n" using n a by simp
    ultimately show ?thesis using a q by simp
  qed
  from n bounds show ?thesis by (simp add: m_def)
qed

lemma sampling_stage_Some:
  assumes "snd (snd (sampling_stage env rng n False a0 [] pos)) = Done (Inr (Some (p, q)))"
  shows "1 < p \<and> p < n \<and> p dvd n \<and> q = n div p"
proof -
  obtain p' x where quiet:
    "snd (sampling_loop env rng n False [0..<max_attempts] a0 [] pos) = (p', x)"
    by (rule prod.exhaust)
  note exit = sampling_loop_exit [where env = env and rng = rng and n = n
      and as = "[0..<max_attempts]" and a = a0 and pos = pos]
  show ?thesis
  proof (cases x)
    case (Inl e)
    with assms show ?thesis by (simp add: sampling_stage_quiet quiet)
  next
    case ex: (Inr ex)
    show ?thesis
    proof (cases ex)
      case (Return gq)
      obtain g q' where gq: "gq = (g, q')" by (rule prod.exhaust)
      from assms ex Return gq have pq: "p = g" "q = q'"
        by (simp_all add: sampling_stage_quiet quiet)
      from exit quiet ex Return gq obtain a' where
        "2 \<le> a'" "a' \<le> n - 1" "g = gcd a' n" "g \<noteq> 1" "q' = n div g"
        by auto
      with shared_factor_nontrivial [of a' n] pq show ?thesis by simp
    next
      case ft: (Fallthrough b)
      show ?thesis
      proof (cases b)
        case None
        with assms ex ft show ?thesis by (simp add: sampling_stage_quiet quiet)
      next
        case (Some a')
        with assms ex ft
        have "snd (order_stage env a' n False []) = Done (Inr (Some (p, q)))"
          by (simp add: sampling_stage_quiet quiet)
        then show ?thesis by (rule order_stage_Some)
      qed
    qed
  qed
qed

lemma perfect_power_stage_Some:
  assumes "snd (snd (perfect_power_stage env rng n False [] pos)) = Done (Inr (Some (p, q)))"
  shows "p * q = n \<and> (3 \<le> n \<longrightarrow> 1 < p \<and> p < n \<and> 1 < q \<and> q < n)"
proof (cases "n \<le> 0")
  case True
  with assms show ?thesis by (simp add: perfect_power_stage_quiet)
next
  case positive: False
  show ?thesis
  proof (cases "perfect_power_loop env n [2..log2_int env n] None")
    case (Inl e)
    with assms positive show ?thesis by (simp add: perfect_power_stage_quiet)
  next
    case ex: (Inr ex)
    show ?thesis
    proof (cases ex)
      case (Return ak)
      obtain a k where ak: "ak = (a, k)" by (rule prod.exhaust)
      from assms positive ex Return ak have pq: "p = a \<and> q = a ^ nat (k - 1)"
        by (auto simp: perfect_power_stage_quiet)
      from perfect_power_loop_Return [of env n "[2..log2_int env n]" None a k] ex Return ak
      have "0 \<le> a" "a ^ nat k = n" "2 \<le> k" by simp_all
      from perfect_power_pair [OF this] pq show ?thesis by simp
    next
      case (Fallthrough a0)
      with assms positive ex
      have "snd (snd (sampling_stage env rng n False a0 [] pos)) = Done (Inr (Some (p, q)))"
        by (simp add: perfect_power_stage_quiet)
      from sampling_stage_Some [OF this] nontrivial_cofactor [of p n] show ?thesis by simp
    qed
  qed
qed

lemma shors_attempt_Some:
  assumes "snd (snd (shors_attempt env rng n verbose out pos)) = Done (Inr (Some (p, q)))"
  shows "p * q = n \<and> (3 \<le> n \<longrightarrow> 1 < p \<and> p < n \<and> 1 < q \<and> q < n)"
proof -
  from shors_attempt_verbose_or_error [of env rng n verbose out pos] assms
  have quiet: "snd (snd (shors_attempt env rng n False [] pos)) = Done (Inr (Some (p, q)))"
    by auto
  show ?thesis
  proof (cases "n mod 2 = 0")
    case True
    with quiet have pq: "p = 2" "q = n div 2" by (simp_all add: shors_attempt_quiet)
    from True have "2 * (n div 2) = n" by presburger
    moreover have "1 < n div 2 \<and> n div 2 < n" if "3 \<le> n" using that True by presburger
    ultimately show ?thesis using pq by auto
  next
    case False
    with quiet
    have "snd (snd (perfect_power_stage env rng n False [] pos)) = Done (Inr (Some (p, q)))"
      by (simp add: shors_attempt_quiet)
    then show ?thesis by (rule perfect_power_stage_Some)
  qed
qed

lemma shors_algorithm_Some:
  assumes "snd (snd (shors_algorithm env rng stack n verbose out pos)) = Inr (Some (p, q))"
  shows "p * q = n \<and> (3 \<le> n \<longrightarrow> 1 < p \<and> p < n \<and> 1 < q \<and> q < n)"
  using assms
proof (induction stack arbitrary: verbose out pos)
  case 0
  obtain o1 p1 r1 where run: "shors_attempt env rng n verbose out pos = (o1, p1, r1)"
    by (rule prod_cases3)
  with "0.prems" have "r1 = Done (Inr (Some (p, q)))"
    by (cases r1) simp_all
  with run shors_attempt_Some [of env rng n verbose out pos p q] show ?case by simp
next
  case (Suc stack)
  obtain o1 p1 r1 where run: "shors_attempt env rng n verbose out pos = (o1, p1, r1)"
    by (rule prod_cases3)
  show ?case
  proof (cases r1)
    case (Done val)
    with run Suc.prems have "r1 = Done (Inr (Some (p, q)))" by simp
    with run shors_attempt_Some [of env rng n verbose out pos p q] show ?thesis by simp
  next
    case Retry
    with run Suc.prems
    have "snd (snd (shors_algorithm env rng stack n False o1 p1)) = Inr (Some (p, q))"
      by simp
    then show ?thesis by (rule Suc.IH)
  qed
qed

text \<open>
  C1, as the specification states it, fails at \<open>n = 2\<close>: the call returns \<open>(2, 1)\<close>,
  and neither \<open>1 < q\<close> nor \<open>p < n\<close> holds.
\<close>

theorem returned_pair_trivial_at_two:
  "snd (snd (shors_algorithm
      \<lparr>log2_int = (\<lambda>n. 1), root_round = (\<lambda>n k. Inr 1), int_max_str_digits = 4300\<rparr>
      (\<lambda>i. 0) 0 2 False [] 0)) = Inr (Some (2, 1)) \<and>
   \<not> (1::int) < 1 \<and> \<not> (2::int) < 2"
  by code_simp

text \<open>
  C1, amended. Whenever the engine returns a pair \<open>(p, q)\<close>, \<open>p * q = n\<close>; and when
  \<open>n \<ge> 3\<close>, both factors lie strictly between \<open>1\<close> and \<open>n\<close>.
\<close>

theorem returned_factors_verify:
  assumes "snd (snd (shors_algorithm env rng stack n verbose out pos)) = Inr (Some (p, q))"
  shows "p * q = n \<and> (3 \<le> n \<longrightarrow> 1 < p \<and> p < n \<and> 1 < q \<and> q < n)"
  using assms by (rule shors_algorithm_Some)

theorem returned_factors_verify_witness:
  "snd (snd (shors_algorithm
      \<lparr>log2_int = (\<lambda>n. 3), root_round = (\<lambda>n k. Inr (if k = 2 then 4 else 2)),
       int_max_str_digits = 4300\<rparr>
      (\<lambda>i. 0) 0 15 False [] 0)) = Inr (Some (3, 5)) \<and>
   (3::int) * 5 = 15 \<and> (3::int) \<le> 15 \<and> (1::int) < 3 \<and> (3::int) < 15 \<and> (1::int) < 5 \<and> (5::int) < 15"
proof -
  have run: "snd (snd (shors_algorithm
      \<lparr>log2_int = (\<lambda>n. 3), root_round = (\<lambda>n k. Inr (if k = 2 then 4 else 2)),
       int_max_str_digits = 4300\<rparr>
      (\<lambda>i. 0) 0 15 False [] 0)) = Inr (Some (3, 5))"
    by code_simp
  from returned_factors_verify [OF run] run show ?thesis by simp
qed


section \<open>The sampling loop\<close>





end
